theory Spec2Isabelle
  imports Complex_Main
begin

section \<open>Numbers, errors and the histogram dictionary\<close>

text \<open>
  The script LakeErie_SurfaceWater_AdaptiveThresholding.js builds Earth Engine objects
  and calls library methods on them. Server-side numbers are modelled as exact reals
  (rounding is outside the model). The method \<open>divide\<close> is the one arithmetic operation
  whose result the script does not determine when the divisor is zero, so every function
  below that calls \<open>.divide(...)\<close> takes the division as its first argument \<open>dv\<close>;
  the theorems hold for each division. \<open>ee_divide\<close> is the documented one
  ("returning 0 for division by 0"), \<open>exact_divide\<close> says that a division is the
  real quotient on every non-zero divisor.
\<close>

type_synonym divide = "real \<Rightarrow> real \<Rightarrow> real"

definition ee_divide :: divide where
  "ee_divide a b = (if b = 0 then 0 else a / b)"

definition exact_divide :: "divide \<Rightarrow> bool" where
  "exact_divide dv = (\<forall>a b. b \<noteq> 0 \<longrightarrow> dv a b = a / b)"

datatype ee_error = ArrayShapeMismatch | IndexOutOfBounds | BandNotFound string
  | MissingArgument string string

text \<open>
  The dictionary returned by the histogram reducer: the bucket counts under the key
  \<open>histogram\<close>, the bucket means under \<open>bucketMeans\<close>.
\<close>

record hist_dict =
  histogram :: "real list"
  bucketMeans :: "real list"

section \<open>otsu\<close>

text \<open>
  \<open>var size = means.length().get([0])\<close>, \<open>var total = counts.reduce(sum)\<close>,
  \<open>var sum = means.multiply(counts).reduce(sum)\<close>, \<open>var mean = sum.divide(total)\<close>,
  \<open>var indices = ee.List.sequence(1, size)\<close>.
\<close>

definition otsu_size :: "hist_dict \<Rightarrow> nat" where
  "otsu_size h = length (bucketMeans h)"

definition otsu_total :: "hist_dict \<Rightarrow> real" where
  "otsu_total h = sum_list (histogram h)"

definition otsu_sum :: "hist_dict \<Rightarrow> real" where
  "otsu_sum h = sum_list (map2 (*) (bucketMeans h) (histogram h))"

definition otsu_mean :: "divide \<Rightarrow> hist_dict \<Rightarrow> real" where
  "otsu_mean dv h = dv (otsu_sum h) (otsu_total h)"

definition otsu_indices :: "hist_dict \<Rightarrow> nat list" where
  "otsu_indices h = [1 ..< Suc (otsu_size h)]"

text \<open>The body of the function mapped over \<open>indices\<close>; \<open>slice(0, 0, i)\<close> keeps the first \<open>i\<close> entries.\<close>

definition aCounts :: "hist_dict \<Rightarrow> nat \<Rightarrow> real list" where
  "aCounts h i = take i (histogram h)"

definition aCount :: "hist_dict \<Rightarrow> nat \<Rightarrow> real" where
  "aCount h i = sum_list (aCounts h i)"

definition aMeans :: "hist_dict \<Rightarrow> nat \<Rightarrow> real list" where
  "aMeans h i = take i (bucketMeans h)"

definition aMean :: "divide \<Rightarrow> hist_dict \<Rightarrow> nat \<Rightarrow> real" where
  "aMean dv h i = dv (sum_list (map2 (*) (aMeans h i) (aCounts h i))) (aCount h i)"

definition bCount :: "hist_dict \<Rightarrow> nat \<Rightarrow> real" where
  "bCount h i = otsu_total h - aCount h i"

definition bMean :: "divide \<Rightarrow> hist_dict \<Rightarrow> nat \<Rightarrow> real" where
  "bMean dv h i = dv (otsu_sum h - aCount h i * aMean dv h i) (bCount h i)"

definition bss_at :: "divide \<Rightarrow> hist_dict \<Rightarrow> nat \<Rightarrow> real" where
  "bss_at dv h i =
     aCount h i * (aMean dv h i - otsu_mean dv h)\<^sup>2
     + bCount h i * (bMean dv h i - otsu_mean dv h)\<^sup>2"

definition bss :: "divide \<Rightarrow> hist_dict \<Rightarrow> real list" where
  "bss dv h = map (bss_at dv h) (otsu_indices h)"

text \<open>
  \<open>means.sort(bss)\<close> orders the entries of \<open>means\<close> by ascending key, entries with equal
  keys keeping their order; \<open>.get([-1])\<close> reads the last entry and fails on an empty
  array, and the element-wise \<open>multiply\<close> fails on arrays of different lengths.
\<close>

definition array_sort :: "real list \<Rightarrow> real list \<Rightarrow> real list" where
  "array_sort xs keys = map snd (sort_key fst (zip keys xs))"

definition otsu :: "divide \<Rightarrow> hist_dict \<Rightarrow> ee_error + real" where
  "otsu dv h =
     (if length (histogram h) \<noteq> length (bucketMeans h) then Inl ArrayShapeMismatch
      else if bucketMeans h = [] then Inl IndexOutOfBounds
      else Inr (last (array_sort (bucketMeans h) (bss dv h))))"

section \<open>Parameters and initialisation\<close>

text \<open>The parameter variables at the head of the script, with the values it ships with.\<close>

record config =
  userSeason :: string
  userYear :: real
  setResolution :: real
  band :: string
  edgeLength :: real
  edgeBuffer :: real
  connectedPixels :: nat
  cannyThreshold :: real
  cannySigma :: real
  cannyLt :: real

definition defaults :: config where
  "defaults = \<lparr>userSeason = ''Summer'', userYear = 2023, setResolution = 30, band = ''VV'',
     edgeLength = 25, edgeBuffer = 60, connectedPixels = 100, cannyThreshold = 1,
     cannySigma = 1 / 2, cannyLt = 1 / 20\<rparr>"

text \<open>
  The \<open>switch (userSeason)\<close>: two variables that start undefined (\<open>None\<close>) and the
  console, to which the default branch prints. \<open>ee.Date.fromYMD\<close> checks its arguments in
  the client and throws when the month is undefined, which stops the script; the console
  keeps what was printed before. \<open>initialise\<close> returns the console and either the error
  or the variables the later stages read.
\<close>

datatype ee_date = FromYMD real real real | Advance real string ee_date

record init_state =
  seasonStartMonth :: "real option"
  seasonEndMonth :: "real option"
  startDate :: ee_date
  endDate :: ee_date

definition season_switch :: "string \<Rightarrow> real option \<times> real option \<times> string list" where
  "season_switch s =
     (if s = ''Fall'' then (Some 9, Some 11, [])
      else if s = ''Winter'' then (Some 12, Some 2, [])
      else if s = ''Spring'' then (Some 3, Some 5, [])
      else if s = ''Summer'' then (Some 6, Some 8, [])
      else (None, None,
            [''Invalid season input. Please choose Fall, Winter, Spring, or Summer.'']))"

definition fromYMD :: "real \<Rightarrow> real option \<Rightarrow> real \<Rightarrow> ee_error + ee_date" where
  "fromYMD y m d =
     (case m of None \<Rightarrow> Inl (MissingArgument ''Date.fromYMD'' ''month'')
      | Some mm \<Rightarrow> Inr (FromYMD y mm d))"

text \<open>
  The two assignments of either branch of the \<open>if\<close>:
  \<open>startDate = ee.Date.fromYMD(ys, seasonStartMonth, 1)\<close>, then
  \<open>endDate = ee.Date.fromYMD(ye, seasonEndMonth, 1).advance(1, 'month')\<close>.
\<close>

definition season_dates ::
  "real \<Rightarrow> real option \<Rightarrow> real \<Rightarrow> real option \<Rightarrow> ee_error + ee_date \<times> ee_date" where
  "season_dates ys sm ye em =
     (case fromYMD ys sm 1 of Inl e \<Rightarrow> Inl e
      | Inr sd \<Rightarrow>
          (case fromYMD ye em 1 of Inl e \<Rightarrow> Inl e
           | Inr ed \<Rightarrow> Inr (sd, Advance 1 ''month'' ed)))"

definition initialise :: "config \<Rightarrow> string list \<times> (ee_error + init_state)" where
  "initialise cfg =
     (case season_switch (userSeason cfg) of (sm, em, out) \<Rightarrow>
        (out,
         map_sum id
           (\<lambda>(sd, ed). \<lparr>seasonStartMonth = sm, seasonEndMonth = em, startDate = sd, endDate = ed\<rparr>)
           (if userSeason cfg = ''Winter'' \<and> sm = Some 12
            then season_dates (userYear cfg - 1) sm (userYear cfg) em
            else season_dates (userYear cfg) sm (userYear cfg) em)))"

section \<open>Images\<close>

text \<open>
  A single-band raster: the band's name, the projection, and the cells of the grid, each
  with its sample or \<open>None\<close> where the cell is masked (no data). \<open>sample\<close> reads a cell.
\<close>

type_synonym pixel = "int \<times> int"

record projection =
  crs :: string
  nominalScale :: real

record image =
  bandName :: string
  proj :: projection
  cells :: "(pixel \<times> real option) list"

definition sample :: "image \<Rightarrow> pixel \<Rightarrow> real option" where
  "sample img p = (case map_of (cells img) p of None \<Rightarrow> None | Some v \<Rightarrow> v)"

definition mapCells :: "(pixel \<Rightarrow> real option \<Rightarrow> real option) \<Rightarrow> image \<Rightarrow> image" where
  "mapCells f img = img\<lparr>cells := map (\<lambda>(p, v). (p, f p v)) (cells img)\<rparr>"

text \<open>
  The methods the script calls: \<open>select\<close> fails on a band the image does not have,
  \<open>rename\<close> and \<open>resample\<close> leave the samples alone, \<open>lt\<close> and \<open>gte\<close> compare each
  unmasked sample with a number and give 1 or 0, \<open>updateMask\<close> masks the cells where
  the mask image is zero or masked.
\<close>

definition select :: "string \<Rightarrow> image \<Rightarrow> ee_error + image" where
  "select b img = (if bandName img = b then Inr img else Inl (BandNotFound b))"

definition rename :: "string \<Rightarrow> image \<Rightarrow> image" where
  "rename b img = img\<lparr>bandName := b\<rparr>"

definition resample :: "string \<Rightarrow> image \<Rightarrow> image" where
  "resample mode img = img"

definition lt :: "image \<Rightarrow> real \<Rightarrow> image" where
  "lt img t = mapCells (\<lambda>p v. map_option (\<lambda>x. if x < t then 1 else 0) v) img"

definition gte :: "image \<Rightarrow> real \<Rightarrow> image" where
  "gte img t = mapCells (\<lambda>p v. map_option (\<lambda>x. if x \<ge> t then 1 else 0) v) img"

definition updateMask :: "image \<Rightarrow> image \<Rightarrow> image" where
  "updateMask img m =
     mapCells (\<lambda>p v. case sample m p of None \<Rightarrow> None
                      | Some x \<Rightarrow> if x = 0 then None else v) img"

text \<open>
  \<open>connectedPixelCount(maxSize, eightConnected)\<close>: each unmasked cell gets the number of
  cells joined to it (itself included) through neighbouring unmasked cells of the same
  value, capped at \<open>maxSize\<close>.
\<close>

definition neighbours :: "bool \<Rightarrow> pixel \<Rightarrow> pixel \<Rightarrow> bool" where
  "neighbours eight p q =
     (let dx = \<bar>fst p - fst q\<bar>; dy = \<bar>snd p - snd q\<bar>
      in if eight then max dx dy = 1 else dx + dy = 1)"

definition linked :: "bool \<Rightarrow> image \<Rightarrow> pixel \<Rightarrow> pixel \<Rightarrow> bool" where
  "linked eight img p q =
     (neighbours eight p q \<and> sample img p \<noteq> None \<and> sample img p = sample img q)"

inductive joined :: "bool \<Rightarrow> image \<Rightarrow> pixel \<Rightarrow> pixel \<Rightarrow> bool"
  for eight :: bool and img :: image
where
  here: "joined eight img p p"
| step: "joined eight img p q \<Longrightarrow> linked eight img q r \<Longrightarrow> joined eight img p r"

code_pred joined .

definition pixelCount :: "nat \<Rightarrow> bool \<Rightarrow> image \<Rightarrow> pixel \<Rightarrow> nat" where
  "pixelCount maxSize eight img p =
     min maxSize (card {q \<in> fst ` set (cells img). joined eight img p q})"

definition connectedPixelCount :: "nat \<Rightarrow> bool \<Rightarrow> image \<Rightarrow> image" where
  "connectedPixelCount maxSize eight img =
     mapCells (\<lambda>p v. map_option (\<lambda>x. real (pixelCount maxSize eight img p)) v) img"

text \<open>
  \<open>fastDistanceTransform()\<close> with its defaults (neighbourhood 256 pixels, units pixels,
  metric squared Euclidean): every cell of the grid, masked or not, gets the squared
  distance to the nearest non-zero cell within the neighbourhood, and no value when
  there is none.
\<close>

definition sqDist :: "pixel \<Rightarrow> pixel \<Rightarrow> real" where
  "sqDist p q = real_of_int ((fst p - fst q)\<^sup>2 + (snd p - snd q)\<^sup>2)"

definition nonZero :: "image \<Rightarrow> pixel list" where
  "nonZero img = map fst (filter (\<lambda>(p, v). v \<noteq> None \<and> v \<noteq> Some 0) (cells img))"

definition near :: "pixel \<Rightarrow> pixel \<Rightarrow> bool" where
  "near p q = (max \<bar>fst p - fst q\<bar> \<bar>snd p - snd q\<bar> \<le> 256)"

definition nearestSq :: "image \<Rightarrow> pixel \<Rightarrow> real option" where
  "nearestSq img p =
     (let ds = map (sqDist p) (filter (near p) (nonZero img))
      in if ds = [] then None else Some (Min (set ds)))"

definition fastDistanceTransform :: "image \<Rightarrow> image" where
  "fastDistanceTransform img = mapCells (\<lambda>p v. nearestSq img p) img"

section \<open>The two thresholding passes\<close>

text \<open>
  \<open>s1Mosaic\<close> is the composite after \<open>s1Mosaic = s1Mosaic.rename(band)\<close>.
  \<open>commonGrid\<close> is the reference image's band, so \<open>imageProj\<close> is the reference
  image's own projection. \<open>globalWater\<close>, \<open>binary\<close> and \<open>localWater\<close> threshold the
  mosaic's band; \<open>canny\<close> is the result of the library's edge detector on \<open>binary\<close>
  and is an input here.
\<close>

definition s1Mosaic :: "string \<Rightarrow> image \<Rightarrow> image" where
  "s1Mosaic b composite = rename b composite"

definition commonGrid :: "string \<Rightarrow> image \<Rightarrow> ee_error + image" where
  "commonGrid b referenceImage = map_sum id (resample ''bicubic'') (select b referenceImage)"

definition imageProj :: "string \<Rightarrow> image \<Rightarrow> ee_error + projection" where
  "imageProj b referenceImage = map_sum id proj (commonGrid b referenceImage)"

definition globalWater :: "string \<Rightarrow> image \<Rightarrow> real \<Rightarrow> ee_error + image" where
  "globalWater b mosaic globalThreshold =
     map_sum id (\<lambda>i. lt i globalThreshold) (select b mosaic)"

definition binary :: "string \<Rightarrow> image \<Rightarrow> real \<Rightarrow> ee_error + image" where
  "binary b mosaic globalThreshold =
     (let initialThreshold = globalThreshold
      in map_sum id (\<lambda>i. rename ''binary'' (lt i initialThreshold)) (select b mosaic))"

definition localWater :: "string \<Rightarrow> image \<Rightarrow> real \<Rightarrow> ee_error + image" where
  "localWater b mosaic localThreshold =
     map_sum id (\<lambda>i. lt i localThreshold) (select b mosaic)"

text \<open>
  \<open>connected_count\<close> is the script's variable \<open>connected\<close>, \<open>edges\<close> its \<open>edges\<close>;
  \<open>edgeFilter\<close> is the filter they apply to the edge raster, the count of connected
  pixels followed by the comparison with the minimum length.
  An image is single-valued when its unmasked cells all hold one value.
  \<open>detector_output\<close> is what the edge detector can return for a configuration: one
  sample for each cell, and a strength only where the gradient magnitude is higher than
  \<open>cannyThreshold\<close>, 0 elsewhere.
\<close>

definition edgeFilter :: "nat \<Rightarrow> real \<Rightarrow> image \<Rightarrow> image" where
  "edgeFilter maxSize minLength img = gte (connectedPixelCount maxSize True img) minLength"

definition single_valued_img :: "image \<Rightarrow> bool" where
  "single_valued_img img =
     (\<forall>v\<in>set (map snd (cells img)). \<forall>w\<in>set (map snd (cells img)).
        v \<noteq> None \<and> w \<noteq> None \<longrightarrow> v = w)"

definition detector_output :: "config \<Rightarrow> image \<Rightarrow> bool" where
  "detector_output cfg canny =
     (distinct (map fst (cells canny))
      \<and> list_all (\<lambda>v. case v of None \<Rightarrow> True | Some x \<Rightarrow> x = 0 \<or> cannyThreshold cfg < x)
           (map snd (cells canny)))"

definition connected_count :: "config \<Rightarrow> image \<Rightarrow> image" where
  "connected_count cfg canny =
     connectedPixelCount (connectedPixels cfg) True (lt (updateMask canny canny) (cannyLt cfg))"

definition edges :: "config \<Rightarrow> image \<Rightarrow> image" where
  "edges cfg canny = gte (connected_count cfg canny) (edgeLength cfg)"

definition edgeBufferPixel :: "divide \<Rightarrow> real \<Rightarrow> projection \<Rightarrow> real" where
  "edgeBufferPixel dv buffer prj = dv buffer (nominalScale prj)"

definition bufferedEdges :: "divide \<Rightarrow> real \<Rightarrow> projection \<Rightarrow> image \<Rightarrow> image" where
  "bufferedEdges dv buffer prj es =
     lt (fastDistanceTransform es) (edgeBufferPixel dv buffer prj)"

definition edgeImage :: "image \<Rightarrow> image \<Rightarrow> image" where
  "edgeImage banded buffered = updateMask banded buffered"

section \<open>Sample inputs\<close>

definition two_buckets :: hist_dict where
  "two_buckets = \<lparr>histogram = [1, 1], bucketMeans = [0, 1]\<rparr>"

definition single_bucket :: hist_dict where
  "single_bucket = \<lparr>histogram = [0, 7, 0], bucketMeans = [1, 2, 3]\<rparr>"

definition utm10 :: projection where
  "utm10 = \<lparr>crs = ''EPSG:32617'', nominalScale = 10\<rparr>"

definition strip :: image where
  "strip = \<lparr>bandName = ''binary'', proj = utm10,
     cells = [((0, 0), Some 1), ((1, 0), None), ((2, 0), None)]\<rparr>"

definition autumn :: config where
  "autumn = defaults\<lparr>userSeason := ''Autumn''\<rparr>"

definition fine_winter :: config where
  "fine_winter = defaults\<lparr>userSeason := ''Winter'', setResolution := 5, band := ''XX'',
     edgeLength := - 1, edgeBuffer := - 60\<rparr>"

definition pair_img :: image where
  "pair_img = \<lparr>bandName = ''binary'', proj = utm10,
     cells = [((0, 0), Some 1), ((1, 0), Some 0)]\<rparr>"

definition short_edges :: config where
  "short_edges = defaults\<lparr>edgeLength := 2\<rparr>"

definition weak_edges :: config where
  "weak_edges = defaults\<lparr>cannyThreshold := 1 / 100, edgeLength := 2\<rparr>"

definition canny_row :: image where
  "canny_row = \<lparr>bandName = ''binary'', proj = utm10,
     cells = [((0, 0), Some (3 / 2)), ((1, 0), Some 2), ((2, 0), Some 0), ((3, 0), Some (6 / 5))]\<rparr>"

definition edge_row :: image where
  "edge_row = \<lparr>bandName = ''binary'', proj = utm10,
     cells = [((0, 0), Some 0), ((1, 0), Some 0), ((2, 0), None), ((3, 0), Some 0)]\<rparr>"

definition canny_weak :: image where
  "canny_weak = \<lparr>bandName = ''binary'', proj = utm10,
     cells = [((0, 0), Some (1 / 50)), ((1, 0), Some 1)]\<rparr>"

definition edge_line :: image where
  "edge_line = \<lparr>bandName = ''binary'', proj = utm10,
     cells = [((0, 0), Some 1), ((1, 0), None), ((2, 0), None), ((3, 0), None)]\<rparr>"

section \<open>The last entry of a sort by keys\<close>

lemma last_insort_key:
  fixes f :: "'a \<Rightarrow> real"
  assumes "sorted (map f ys)"
  shows "last (insort_key f x ys) = (if ys = [] \<or> f (last ys) < f x then x else last ys)"
  using assms
proof (induction ys)
  case Nil
  then show ?case by simp
next
  case (Cons y ys)
  show ?case
  proof (cases "ys = []")
    case True
    then show ?thesis by auto
  next
    case False
    have le: "f y \<le> f (last ys)"
      using Cons.prems False by (simp add: last_in_set)
    have ih: "last (insort_key f x ys) = (if f (last ys) < f x then x else last ys)"
      using Cons.IH Cons.prems False by simp
    have ne: "insort_key f x ys \<noteq> []"
      by (cases ys) auto
    show ?thesis
      using False le ih ne by auto
  qed
qed

lemma last_sort_key:
  fixes f :: "'a \<Rightarrow> real"
  assumes "kv \<noteq> []"
  shows "\<exists>j<length kv. last (sort_key f kv) = kv ! j
           \<and> (\<forall>i<length kv. f (kv ! i) \<le> f (kv ! j))
           \<and> (\<forall>i<length kv. j < i \<longrightarrow> f (kv ! i) < f (kv ! j))"
  using assms
proof (induction kv)
  case Nil
  then show ?case by simp
next
  case (Cons x xs)
  have srt: "sorted (map f (sort_key f xs))"
    by (rule sorted_sort_key)
  have step: "last (sort_key f (x # xs))
      = (if xs = [] \<or> f (last (sort_key f xs)) < f x then x else last (sort_key f xs))"
  proof -
    have "sort_key f (x # xs) = insort_key f x (sort_key f xs)" by simp
    moreover have "(sort_key f xs = []) = (xs = [])"
      by (metis length_sort length_0_conv)
    ultimately show ?thesis using last_insort_key [OF srt, of x] by simp
  qed
  show ?case
  proof (cases "xs = []")
    case True
    then show ?thesis by simp
  next
    case False
    from Cons.IH [OF False] obtain j where j: "j < length xs"
      and lj: "last (sort_key f xs) = xs ! j"
      and mx: "\<forall>i<length xs. f (xs ! i) \<le> f (xs ! j)"
      and st: "\<forall>i<length xs. j < i \<longrightarrow> f (xs ! i) < f (xs ! j)"
      by blast
    show ?thesis
    proof (cases "f (xs ! j) < f x")
      case True
      have "last (sort_key f (x # xs)) = (x # xs) ! 0"
        using step lj True by simp
      moreover have "\<forall>i<length (x # xs). f ((x # xs) ! i) \<le> f ((x # xs) ! 0)"
      proof (intro allI impI)
        fix i assume "i < length (x # xs)"
        then show "f ((x # xs) ! i) \<le> f ((x # xs) ! 0)"
          using mx True by (cases i) (auto intro: less_imp_le order_le_less_trans)
      qed
      moreover have "\<forall>i<length (x # xs). 0 < i \<longrightarrow> f ((x # xs) ! i) < f ((x # xs) ! 0)"
      proof (intro allI impI)
        fix i assume "i < length (x # xs)" "0 < i"
        then show "f ((x # xs) ! i) < f ((x # xs) ! 0)"
          using mx True by (cases i) (auto intro: order_le_less_trans)
      qed
      ultimately show ?thesis by (intro exI [of _ 0]) simp
    next
      case nless: False
      have "last (sort_key f (x # xs)) = (x # xs) ! Suc j"
        using step lj nless False by simp
      moreover have "\<forall>i<length (x # xs). f ((x # xs) ! i) \<le> f ((x # xs) ! Suc j)"
      proof (intro allI impI)
        fix i assume "i < length (x # xs)"
        then show "f ((x # xs) ! i) \<le> f ((x # xs) ! Suc j)"
          using mx nless by (cases i) auto
      qed
      moreover have "\<forall>i<length (x # xs). Suc j < i \<longrightarrow> f ((x # xs) ! i) < f ((x # xs) ! Suc j)"
      proof (intro allI impI)
        fix i assume "i < length (x # xs)" "Suc j < i"
        then show "f ((x # xs) ! i) < f ((x # xs) ! Suc j)"
          using st by (cases i) auto
      qed
      ultimately show ?thesis using j by (intro exI [of _ "Suc j"]) simp
    qed
  qed
qed

lemma last_array_sort:
  assumes "length keys = length xs" and "xs \<noteq> []"
  shows "\<exists>j<length xs. last (array_sort xs keys) = xs ! j
           \<and> (\<forall>i<length xs. keys ! i \<le> keys ! j)
           \<and> (\<forall>i<length xs. j < i \<longrightarrow> keys ! i < keys ! j)"
proof -
  let ?kv = "zip keys xs"
  have ne: "?kv \<noteq> []" using assms by (cases keys; cases xs) auto
  have len: "length ?kv = length xs" using assms by simp
  from last_sort_key [OF ne, of fst] obtain j where j: "j < length ?kv"
    and lj: "last (sort_key fst ?kv) = ?kv ! j"
    and mx: "\<forall>i<length ?kv. fst (?kv ! i) \<le> fst (?kv ! j)"
    and st: "\<forall>i<length ?kv. j < i \<longrightarrow> fst (?kv ! i) < fst (?kv ! j)"
    by blast
  have sne: "sort_key fst ?kv \<noteq> []"
    using ne by (metis length_sort list.size(3) length_0_conv)
  have "last (array_sort xs keys) = snd (last (sort_key fst ?kv))"
    unfolding array_sort_def using sne by (simp add: last_map)
  also have "\<dots> = xs ! j" using lj j len assms by simp
  finally have a: "last (array_sort xs keys) = xs ! j" .
  have b: "\<forall>i<length xs. keys ! i \<le> keys ! j"
    using mx j len assms by auto
  have c: "\<forall>i<length xs. j < i \<longrightarrow> keys ! i < keys ! j"
    using st j len assms by auto
  show ?thesis using a b c j len by auto
qed

section \<open>otsu: indices, keys and the selected mean\<close>

lemmas otsu_defs = otsu_def array_sort_def bss_def bss_at_def otsu_indices_def otsu_size_def
  aCount_def aCounts_def aMean_def aMeans_def bCount_def bMean_def otsu_mean_def otsu_sum_def
  otsu_total_def

lemma bss_nth:
  assumes "i < otsu_size h"
  shows "bss dv h ! i = bss_at dv h (Suc i)"
  using assms unfolding bss_def otsu_indices_def by (simp del: upt_Suc)

lemma length_bss: "length (bss dv h) = otsu_size h"
  unfolding bss_def otsu_indices_def by simp

lemma set_otsu_indices: "set (otsu_indices h) = {1 .. otsu_size h}"
  unfolding otsu_indices_def by auto

lemma aCount_final:
  assumes "length (histogram h) = length (bucketMeans h)"
  shows "aCount h (otsu_size h) = otsu_total h"
  using assms by (simp add: aCount_def aCounts_def otsu_size_def otsu_total_def)

lemma aMean_final:
  assumes "length (histogram h) = length (bucketMeans h)"
  shows "aMean dv h (otsu_size h) = otsu_mean dv h"
  using assms
  by (simp add: aMean_def aMeans_def aCount_def aCounts_def otsu_size_def otsu_mean_def
      otsu_sum_def otsu_total_def)

lemma bss_at_final_zero:
  assumes "length (histogram h) = length (bucketMeans h)"
  shows "bss_at dv h (length (bucketMeans h)) = 0"
proof -
  have N: "otsu_size h = length (bucketMeans h)" by (simp add: otsu_size_def)
  show ?thesis
    using aCount_final [OF assms] aMean_final [OF assms, of dv]
    by (simp add: bss_at_def bCount_def N)
qed

lemma elem_le_sum_list:
  fixes xs :: "real list"
  assumes "\<forall>x\<in>set xs. 0 \<le> x" and "x \<in> set xs"
  shows "x \<le> sum_list xs"
  using assms
proof (induction xs)
  case Nil
  then show ?case by simp
next
  case (Cons y ys)
  have "0 \<le> sum_list ys" using Cons.prems(1) by (simp add: sum_list_nonneg)
  moreover have "0 \<le> y" using Cons.prems(1) by simp
  ultimately show ?case using Cons by (cases "x = y") (auto intro: add_increasing)
qed

lemma weighted_sum_le:
  fixes zs :: "(real \<times> real) list"
  assumes "\<forall>(m, c)\<in>set zs. 0 \<le> c \<and> m \<le> M"
  shows "sum_list (map (\<lambda>(m, c). m * c) zs) \<le> M * sum_list (map snd zs)"
  using assms
proof (induction zs)
  case Nil
  then show ?case by simp
next
  case (Cons z zs)
  obtain m c where z: "z = (m, c)" by (cases z)
  have "m * c \<le> M * c" using Cons.prems z by (simp add: mult_right_mono)
  moreover have "sum_list (map (\<lambda>(m, c). m * c) zs) \<le> M * sum_list (map snd zs)"
    using Cons by simp
  ultimately show ?case using z by (simp add: algebra_simps)
qed

lemma weighted_sum_ge:
  fixes zs :: "(real \<times> real) list"
  assumes "\<forall>(m, c)\<in>set zs. 0 \<le> c \<and> M \<le> m"
  shows "M * sum_list (map snd zs) \<le> sum_list (map (\<lambda>(m, c). m * c) zs)"
  using assms
proof (induction zs)
  case Nil
  then show ?case by simp
next
  case (Cons z zs)
  obtain m c where z: "z = (m, c)" by (cases z)
  have "M * c \<le> m * c" using Cons.prems z by (simp add: mult_right_mono)
  moreover have "M * sum_list (map snd zs) \<le> sum_list (map (\<lambda>(m, c). m * c) zs)"
    using Cons by simp
  ultimately show ?case using z by (simp add: algebra_simps)
qed

lemma bss_positive_split:
  assumes ex: "exact_divide dv"
    and len: "length (histogram h) = length (bucketMeans h)"
    and nn: "\<forall>c\<in>set (histogram h). 0 \<le> c"
    and inc: "sorted_wrt (<) (bucketMeans h)"
    and ab: "a < b" "b < length (histogram h)"
    and pa: "0 < histogram h ! a" and pb: "0 < histogram h ! b"
  shows "0 < bss_at dv h (Suc a)"
proof -
  let ?cs = "histogram h" and ?ms = "bucketMeans h"
  let ?k = "Suc a"
  let ?za = "zip (take ?k ?ms) (take ?k ?cs)"
  let ?zb = "zip (drop ?k ?ms) (drop ?k ?cs)"
  let ?A = "sum_list (take ?k ?cs)" and ?B = "sum_list (drop ?k ?cs)"
  let ?SA = "sum_list (map (\<lambda>(m, c). m * c) ?za)"
  let ?SB = "sum_list (map (\<lambda>(m, c). m * c) ?zb)"
  have k: "?k \<le> b" "?k < length ?cs" using ab by simp_all
  have tot: "otsu_total h = ?A + ?B"
    unfolding otsu_total_def by (metis append_take_drop_id sum_list_append)
  have "zip ?ms ?cs = ?za @ ?zb"
    by (metis append_take_drop_id take_zip drop_zip)
  then have sm: "otsu_sum h = ?SA + ?SB"
    unfolding otsu_sum_def by (metis map_append sum_list_append)
  have "?cs ! a \<in> set (take ?k ?cs)"
    using k by (metis in_set_conv_nth length_take lessI min.absorb2 nth_take less_imp_le)
  moreover have nna: "\<forall>x\<in>set (take ?k ?cs). 0 \<le> x" using nn by (meson in_set_takeD)
  ultimately have "?cs ! a \<le> ?A" by (intro elem_le_sum_list) auto
  then have A: "0 < ?A" using pa by simp
  have "drop ?k ?cs ! (b - ?k) = ?cs ! b" using k ab by simp
  then have "?cs ! b \<in> set (drop ?k ?cs)"
    using k ab by (metis in_set_conv_nth length_drop diff_less_mono)
  moreover have nnb: "\<forall>x\<in>set (drop ?k ?cs). 0 \<le> x" using nn by (meson in_set_dropD)
  ultimately have "?cs ! b \<le> ?B" by (intro elem_le_sum_list) auto
  then have B: "0 < ?B" using pb by simp
  have "\<forall>(m, c)\<in>set ?za. 0 \<le> c \<and> m \<le> ?ms ! a"
  proof (clarify)
    fix m c assume "(m, c) \<in> set ?za"
    then obtain i where i: "i < ?k" "i < length ?ms" "m = ?ms ! i" "c = take ?k ?cs ! i"
      "i < length (take ?k ?cs)"
      by (auto simp: set_zip)
    have "c \<in> set (take ?k ?cs)" using i by (metis nth_mem)
    then have "0 \<le> c" using nna by blast
    moreover have "m \<le> ?ms ! a"
    proof (cases "i = a")
      case True
      then show ?thesis using i by simp
    next
      case False
      then have "i < a" using i by simp
      then have "?ms ! i < ?ms ! a" using inc k len by (simp add: sorted_wrt_nth_less)
      then show ?thesis using i by simp
    qed
    ultimately show "0 \<le> c \<and> m \<le> ?ms ! a" by simp
  qed
  then have "?SA \<le> ?ms ! a * sum_list (map snd ?za)" by (rule weighted_sum_le)
  moreover have "map snd ?za = take ?k ?cs" using len by (intro map_snd_zip) simp
  ultimately have SA: "?SA \<le> ?ms ! a * ?A" by simp
  have "\<forall>(m, c)\<in>set ?zb. 0 \<le> c \<and> ?ms ! ?k \<le> m"
  proof (clarify)
    fix m c assume "(m, c) \<in> set ?zb"
    then have "\<exists>n. drop ?k ?ms ! n = m \<and> drop ?k ?cs ! n = c
        \<and> n < length (drop ?k ?ms) \<and> n < length (drop ?k ?cs)"
      by (simp only: in_set_zip fst_conv snd_conv)
    then obtain i where i0: "drop ?k ?ms ! i = m" "drop ?k ?cs ! i = c"
      "i < length (drop ?k ?ms)" "i < length (drop ?k ?cs)"
      by blast
    have i: "?k + i < length ?ms" "m = ?ms ! (?k + i)" "c = drop ?k ?cs ! i"
      "i < length (drop ?k ?cs)"
      using i0 k len by auto
    have "c \<in> set (drop ?k ?cs)" using i by (metis nth_mem)
    then have "0 \<le> c" using nnb by blast
    moreover have "?ms ! ?k \<le> m"
    proof (cases "i = 0")
      case True
      then show ?thesis using i by simp
    next
      case False
      then have "?ms ! ?k < ?ms ! (?k + i)" using inc i by (simp add: sorted_wrt_nth_less)
      then show ?thesis using i by simp
    qed
    ultimately show "0 \<le> c \<and> ?ms ! ?k \<le> m" by simp
  qed
  then have "?ms ! ?k * sum_list (map snd ?zb) \<le> ?SB" by (rule weighted_sum_ge)
  moreover have "map snd ?zb = drop ?k ?cs" using len by (intro map_snd_zip) simp
  ultimately have SB: "?ms ! ?k * ?B \<le> ?SB" by simp
  have "?ms ! a < ?ms ! ?k" using inc k len by (simp add: sorted_wrt_nth_less)
  then have "?ms ! a * ?B < ?ms ! ?k * ?B" using B by simp
  then have SB': "?ms ! a * ?B < ?SB" using SB by simp
  have "?SA * ?B \<le> ?ms ! a * ?A * ?B" using SA B by (simp add: mult_right_mono)
  also have "\<dots> = (?ms ! a * ?B) * ?A" by simp
  also have "\<dots> < ?SB * ?A" using SB' A by simp
  finally have cross: "?SA * ?B < ?SB * ?A" .
  have aC: "aCount h ?k = ?A" by (simp add: aCount_def aCounts_def)
  have bC: "bCount h ?k = ?B" using tot aC by (simp add: bCount_def)
  have aM: "aMean dv h ?k = ?SA / ?A"
    using ex A by (simp add: aMean_def aMeans_def aCounts_def aCount_def exact_divide_def)
  have mn: "otsu_mean dv h = (?SA + ?SB) / (?A + ?B)"
    using ex A B tot sm by (simp add: otsu_mean_def exact_divide_def)
  have "?SA / ?A < (?SA + ?SB) / (?A + ?B)"
    using cross A B by (simp add: field_simps)
  then have "0 < (aMean dv h ?k - otsu_mean dv h)\<^sup>2" using aM mn by simp
  then have "0 < aCount h ?k * (aMean dv h ?k - otsu_mean dv h)\<^sup>2" using aC A by simp
  moreover have "0 \<le> bCount h ?k * (bMean dv h ?k - otsu_mean dv h)\<^sup>2" using bC B by simp
  ultimately show ?thesis by (simp add: bss_at_def)
qed


text \<open>
  Claim C1, amended. For a histogram with as many counts as means and at least one
  bucket, \<open>otsu\<close> computes the between-class variance for the split indices 1 to N, the
  index N with its empty class B included. It returns the bucket mean at position k of
  the means (counted from 1), where k is the last index that maximises the variance; when
  the means are sorted this is the highest mean among the maximisers. When moreover the
  counts are non-negative, the means strictly increasing and two buckets non-empty (and
  the division exact on non-zero divisors), the variance at k is positive and k is at
  most N - 1. The result is one of the bucket means.
\<close>

theorem otsu_last_maximum:
  assumes "length (histogram h) = length (bucketMeans h)" and "bucketMeans h \<noteq> []"
  shows "set (otsu_indices h) = {1 .. length (bucketMeans h)}
    \<and> length (bss dv h) = length (bucketMeans h)
    \<and> (\<exists>k\<in>set (otsu_indices h).
          otsu dv h = Inr (bucketMeans h ! (k - 1))
          \<and> (\<forall>j\<in>set (otsu_indices h). bss_at dv h j \<le> bss_at dv h k)
          \<and> (\<forall>j\<in>set (otsu_indices h). k < j \<longrightarrow> bss_at dv h j < bss_at dv h k)
          \<and> (sorted (bucketMeans h) \<longrightarrow>
               (\<forall>j\<in>set (otsu_indices h). bss_at dv h j = bss_at dv h k
                  \<longrightarrow> bucketMeans h ! (j - 1) \<le> bucketMeans h ! (k - 1)))
          \<and> (exact_divide dv \<and> (\<forall>c\<in>set (histogram h). 0 \<le> c)
               \<and> sorted_wrt (<) (bucketMeans h)
               \<and> (\<exists>a b. a < b \<and> b < length (histogram h)
                      \<and> 0 < histogram h ! a \<and> 0 < histogram h ! b)
               \<longrightarrow> k < length (bucketMeans h) \<and> 0 < bss_at dv h k))
    \<and> (\<exists>m\<in>set (bucketMeans h). otsu dv h = Inr m)"
proof -
  let ?ms = "bucketMeans h"
  let ?N = "length ?ms"
  have N: "otsu_size h = ?N" by (simp add: otsu_size_def)
  have lk: "length (bss dv h) = ?N" by (simp add: length_bss N)
  from last_array_sort [OF lk assms(2)] obtain j where j: "j < ?N"
    and lj: "last (array_sort ?ms (bss dv h)) = ?ms ! j"
    and mx: "\<forall>i<?N. bss dv h ! i \<le> bss dv h ! j"
    and st: "\<forall>i<?N. j < i \<longrightarrow> bss dv h ! i < bss dv h ! j"
    by blast
  have res: "otsu dv h = Inr (?ms ! j)"
    using assms lj by (simp add: otsu_def)
  have key: "\<And>i. i < ?N \<Longrightarrow> bss dv h ! i = bss_at dv h (Suc i)"
    using bss_nth N by simp
  have idx: "set (otsu_indices h) = {1 .. ?N}"
    using set_otsu_indices N by simp
  have kin: "Suc j \<in> set (otsu_indices h)" using j idx by simp
  have m1: "\<forall>i\<in>set (otsu_indices h). bss_at dv h i \<le> bss_at dv h (Suc j)"
  proof
    fix i assume "i \<in> set (otsu_indices h)"
    then have "i - 1 < ?N" "Suc (i - 1) = i" using idx by auto
    then show "bss_at dv h i \<le> bss_at dv h (Suc j)"
      using mx key j by metis
  qed
  have m2: "\<forall>i\<in>set (otsu_indices h). Suc j < i \<longrightarrow> bss_at dv h i < bss_at dv h (Suc j)"
  proof (intro ballI impI)
    fix i assume "i \<in> set (otsu_indices h)" and gt: "Suc j < i"
    then have a: "i - 1 < ?N" "Suc (i - 1) = i" using idx by auto
    have "j < i - 1" using gt by simp
    then have "bss dv h ! (i - 1) < bss dv h ! j" using st a by blast
    then show "bss_at dv h i < bss_at dv h (Suc j)"
      using key a j by metis
  qed
  have m3: "sorted ?ms \<longrightarrow> (\<forall>i\<in>set (otsu_indices h). bss_at dv h i = bss_at dv h (Suc j)
                  \<longrightarrow> ?ms ! (i - 1) \<le> ?ms ! (Suc j - 1))"
  proof (intro ballI impI)
    fix i assume srt: "sorted ?ms" and iin: "i \<in> set (otsu_indices h)"
      and eq: "bss_at dv h i = bss_at dv h (Suc j)"
    have "\<not> Suc j < i" using m2 iin eq by force
    then have "i - 1 \<le> j" by simp
    then show "?ms ! (i - 1) \<le> ?ms ! (Suc j - 1)"
      using srt j by (simp add: sorted_nth_mono)
  qed
  have m5: "exact_divide dv \<and> (\<forall>c\<in>set (histogram h). 0 \<le> c)
               \<and> sorted_wrt (<) (bucketMeans h)
               \<and> (\<exists>a b. a < b \<and> b < length (histogram h)
                      \<and> 0 < histogram h ! a \<and> 0 < histogram h ! b)
               \<longrightarrow> Suc j < length (bucketMeans h) \<and> 0 < bss_at dv h (Suc j)"
  proof
    assume hyp: "exact_divide dv \<and> (\<forall>c\<in>set (histogram h). 0 \<le> c)
               \<and> sorted_wrt (<) (bucketMeans h)
               \<and> (\<exists>a b. a < b \<and> b < length (histogram h)
                      \<and> 0 < histogram h ! a \<and> 0 < histogram h ! b)"
    then obtain a b where ab: "a < b" "b < length (histogram h)"
      "0 < histogram h ! a" "0 < histogram h ! b"
      by blast
    have pos: "0 < bss_at dv h (Suc a)"
      using bss_positive_split [OF _ assms(1) _ _ ab] hyp by blast
    have "Suc a \<in> set (otsu_indices h)" using ab idx assms(1) by simp
    then have "bss_at dv h (Suc a) \<le> bss_at dv h (Suc j)" using m1 by blast
    then have p: "0 < bss_at dv h (Suc j)" using pos by simp
    have "Suc j \<noteq> ?N" using p bss_at_final_zero [OF assms(1), of dv] by auto
    then show "Suc j < length (bucketMeans h) \<and> 0 < bss_at dv h (Suc j)"
      using j p by simp
  qed
  have m4: "\<exists>m\<in>set ?ms. otsu dv h = Inr m"
    using res j by (intro bexI [of _ "?ms ! j"]) simp_all
  have "otsu dv h = Inr (?ms ! (Suc j - 1))" using res by simp
  then have ex: "\<exists>k\<in>set (otsu_indices h).
          otsu dv h = Inr (?ms ! (k - 1))
          \<and> (\<forall>j\<in>set (otsu_indices h). bss_at dv h j \<le> bss_at dv h k)
          \<and> (\<forall>j\<in>set (otsu_indices h). k < j \<longrightarrow> bss_at dv h j < bss_at dv h k)
          \<and> (sorted ?ms \<longrightarrow>
               (\<forall>j\<in>set (otsu_indices h). bss_at dv h j = bss_at dv h k
                  \<longrightarrow> ?ms ! (j - 1) \<le> ?ms ! (k - 1)))
          \<and> (exact_divide dv \<and> (\<forall>c\<in>set (histogram h). 0 \<le> c)
               \<and> sorted_wrt (<) (bucketMeans h)
               \<and> (\<exists>a b. a < b \<and> b < length (histogram h)
                      \<and> 0 < histogram h ! a \<and> 0 < histogram h ! b)
               \<longrightarrow> k < length (bucketMeans h) \<and> 0 < bss_at dv h k)"
    using kin m1 m2 m3 m5 by (intro bexI [of _ "Suc j"]) blast+
  show ?thesis using idx lk ex m4 by blast
qed


theorem otsu_last_maximum_witness:
  "length (histogram two_buckets) = length (bucketMeans two_buckets)
   \<and> bucketMeans two_buckets \<noteq> []
   \<and> exact_divide ee_divide
   \<and> sorted_wrt (<) (bucketMeans two_buckets)
   \<and> 0 < histogram two_buckets ! 0 \<and> 0 < histogram two_buckets ! 1
   \<and> set (otsu_indices two_buckets) = {1 .. 2}
   \<and> (\<exists>m\<in>set (bucketMeans two_buckets). otsu ee_divide two_buckets = Inr m)"
  using otsu_last_maximum [of two_buckets ee_divide]
  by (simp add: two_buckets_def exact_divide_def ee_divide_def)

theorem otsu_indices_counterexample:
  "\<not> set (otsu_indices two_buckets) \<subseteq> {1 .. length (bucketMeans two_buckets) - 1}"
  by (simp add: two_buckets_def otsu_indices_def otsu_size_def)

text \<open>
  Claim C10, amended. The list of split indices is 1 to N inclusive. At the final index N
  the class-B count is zero and the class-B mean is the result of the division by that
  zero count, with no guard (for a non-zero total it is whatever the division returns
  for 0 divided by 0). In the between-class variance that mean is multiplied by the zero
  count, so the variance at index N, the last key of the sort, is 0 whatever the division
  returns; with non-negative counts, strictly increasing means and two non-empty buckets
  an earlier index has a larger variance.
\<close>

theorem bss_final_index_zero:
  assumes "length (histogram h) = length (bucketMeans h)" and "bucketMeans h \<noteq> []"
  shows "otsu_indices h = [1 ..< Suc (length (bucketMeans h))]
    \<and> last (otsu_indices h) = length (bucketMeans h)
    \<and> bCount h (length (bucketMeans h)) = 0
    \<and> bMean dv h (length (bucketMeans h))
        = dv (otsu_sum h - otsu_total h * otsu_mean dv h) 0
    \<and> (exact_divide dv \<and> otsu_total h \<noteq> 0 \<longrightarrow> bMean dv h (length (bucketMeans h)) = dv 0 0)
    \<and> bss_at dv h (length (bucketMeans h)) = 0
    \<and> last (bss dv h) = 0
    \<and> (exact_divide dv \<and> (\<forall>c\<in>set (histogram h). 0 \<le> c)
          \<and> sorted_wrt (<) (bucketMeans h)
          \<and> (\<exists>a b. a < b \<and> b < length (histogram h)
                 \<and> 0 < histogram h ! a \<and> 0 < histogram h ! b)
          \<longrightarrow> (\<exists>k\<in>set (otsu_indices h). k < length (bucketMeans h)
                 \<and> bss_at dv h (length (bucketMeans h)) < bss_at dv h k))"
proof -
  let ?N = "length (bucketMeans h)"
  have N: "otsu_size h = ?N" by (simp add: otsu_size_def)
  have a: "otsu_indices h = [1 ..< Suc ?N]"
    by (simp add: otsu_indices_def N del: upt_Suc)
  have b: "last (otsu_indices h) = ?N"
    using assms(2) by (cases "bucketMeans h") (simp_all add: otsu_indices_def N)
  have c: "bCount h ?N = 0"
    using aCount_final [OF assms(1)] by (simp add: bCount_def N)
  have d: "bMean dv h ?N = dv (otsu_sum h - otsu_total h * otsu_mean dv h) 0"
    using aCount_final [OF assms(1)] aMean_final [OF assms(1), of dv] c
    by (simp add: bMean_def N)
  have e: "exact_divide dv \<and> otsu_total h \<noteq> 0 \<longrightarrow> bMean dv h ?N = dv 0 0"
  proof
    assume x: "exact_divide dv \<and> otsu_total h \<noteq> 0"
    then have "otsu_mean dv h = otsu_sum h / otsu_total h"
      by (simp add: exact_divide_def otsu_mean_def)
    then have "otsu_sum h - otsu_total h * otsu_mean dv h = 0" using x by simp
    then show "bMean dv h ?N = dv 0 0" using d by simp
  qed
  have f: "bss_at dv h ?N = 0" by (rule bss_at_final_zero [OF assms(1)])
  have ine: "otsu_indices h \<noteq> []"
    using assms(2) by (cases "bucketMeans h") (simp_all add: otsu_indices_def N)
  have "last (bss dv h) = bss_at dv h (last (otsu_indices h))"
    unfolding bss_def using ine by (rule last_map)
  then have g: "last (bss dv h) = 0" using b f by simp
  have i: "exact_divide dv \<and> (\<forall>c\<in>set (histogram h). 0 \<le> c)
          \<and> sorted_wrt (<) (bucketMeans h)
          \<and> (\<exists>a b. a < b \<and> b < length (histogram h)
                 \<and> 0 < histogram h ! a \<and> 0 < histogram h ! b)
          \<longrightarrow> (\<exists>k\<in>set (otsu_indices h). k < ?N \<and> bss_at dv h ?N < bss_at dv h k)"
  proof
    assume hyp: "exact_divide dv \<and> (\<forall>c\<in>set (histogram h). 0 \<le> c)
          \<and> sorted_wrt (<) (bucketMeans h)
          \<and> (\<exists>a b. a < b \<and> b < length (histogram h)
                 \<and> 0 < histogram h ! a \<and> 0 < histogram h ! b)"
    then obtain a b where ab: "a < b" "b < length (histogram h)"
      "0 < histogram h ! a" "0 < histogram h ! b"
      by blast
    have pos: "0 < bss_at dv h (Suc a)"
      using bss_positive_split [OF _ assms(1) _ _ ab] hyp by blast
    have "Suc a \<in> set (otsu_indices h)" "Suc a < ?N"
      using ab assms(1) set_otsu_indices N by simp_all
    then show "\<exists>k\<in>set (otsu_indices h). k < ?N \<and> bss_at dv h ?N < bss_at dv h k"
      using pos f by (intro bexI [of _ "Suc a"]) simp_all
  qed
  show ?thesis using a b c d e f g i by blast
qed

theorem bss_final_index_zero_witness:
  "length (histogram two_buckets) = length (bucketMeans two_buckets)
   \<and> bucketMeans two_buckets \<noteq> []
   \<and> exact_divide ee_divide \<and> otsu_total two_buckets \<noteq> 0
   \<and> sorted_wrt (<) (bucketMeans two_buckets)
   \<and> 0 < histogram two_buckets ! 0 \<and> 0 < histogram two_buckets ! 1
   \<and> otsu_indices two_buckets = [1, 2]
   \<and> bCount two_buckets 2 = 0
   \<and> bMean ee_divide two_buckets 2 = ee_divide 0 0
   \<and> bss_at ee_divide two_buckets 2 = 0
   \<and> last (bss ee_divide two_buckets) = 0"
  using bss_final_index_zero [of two_buckets ee_divide]
  by (simp add: two_buckets_def exact_divide_def ee_divide_def otsu_total_def numeral_2_eq_2)

theorem bss_final_index_counterexample:
  "bCount two_buckets 2 = 0
   \<and> bMean ee_divide two_buckets 2 = 0
   \<and> bss_at ee_divide two_buckets 2 = 0
   \<and> bss ee_divide two_buckets = [1 / 2, 0]"
  by (simp add: two_buckets_def otsu_defs ee_divide_def upt_rec power2_eq_square)

section \<open>otsu on a histogram with all its mass in one bucket\<close>

lemma sum_list_take_single:
  fixes xs :: "real list"
  assumes "\<forall>i<length xs. i \<noteq> j \<longrightarrow> xs ! i = 0" and "k \<le> length xs"
  shows "sum_list (take k xs) = (if j < k then xs ! j else 0)"
  using assms(2)
proof (induction k)
  case 0
  then show ?case by simp
next
  case (Suc k)
  then have k: "k < length xs" by simp
  have "sum_list (take (Suc k) xs) = sum_list (take k xs) + xs ! k"
    using k by (simp add: take_Suc_conv_app_nth)
  then show ?case using Suc.IH k assms(1) by (auto simp: less_Suc_eq)
qed

lemma single_bucket_bss_zero:
  assumes len: "length (histogram h) = length (bucketMeans h)"
    and j: "j < length (histogram h)"
    and z: "\<forall>i<length (histogram h). i \<noteq> j \<longrightarrow> histogram h ! i = 0"
    and k: "k \<le> length (histogram h)"
  shows "bss_at dv h k = 0"
proof -
  let ?cs = "histogram h" and ?ms = "bucketMeans h"
  let ?ws = "map2 (*) ?ms ?cs"
  have lw: "length ?ws = length ?cs" using len by simp
  have zw: "\<forall>i<length ?ws. i \<noteq> j \<longrightarrow> ?ws ! i = 0"
    using z len by simp
  have tot: "otsu_total h = ?cs ! j"
    using sum_list_take_single [OF z, of "length ?cs"] j by (simp add: otsu_total_def)
  have sm: "otsu_sum h = ?ws ! j"
    using sum_list_take_single [OF zw, of "length ?ws"] j lw len by (simp add: otsu_sum_def)
  have ac: "aCount h k = (if j < k then ?cs ! j else 0)"
    using sum_list_take_single [OF z k] by (simp add: aCount_def aCounts_def)
  have tk: "map2 (*) (aMeans h k) (aCounts h k) = take k ?ws"
    by (simp add: aMeans_def aCounts_def take_map take_zip)
  have aw: "sum_list (map2 (*) (aMeans h k) (aCounts h k)) = (if j < k then ?ws ! j else 0)"
    using sum_list_take_single [OF zw, of k] k lw by (simp only: tk)
  show ?thesis
  proof (cases "j < k")
    case True
    then have "aCount h k = otsu_total h" "bCount h k = 0" "aMean dv h k = otsu_mean dv h"
      using ac aw tot sm by (simp_all add: bCount_def aMean_def otsu_mean_def)
    then show ?thesis by (simp add: bss_at_def)
  next
    case False
    then have "aCount h k = 0" "bCount h k = otsu_total h" using ac by (simp_all add: bCount_def)
    then show ?thesis by (simp add: bss_at_def bMean_def otsu_mean_def)
  qed
qed

text \<open>
  Claim C2, amended. For a histogram in which every bucket but one is empty, \<open>otsu\<close>
  raises no error: the between-class variance is zero at every index, and the function
  returns the last bucket mean.
\<close>

theorem otsu_single_bucket_returns_last_mean:
  assumes len: "length (histogram h) = length (bucketMeans h)"
    and j: "j < length (histogram h)"
    and z: "\<forall>i<length (histogram h). i \<noteq> j \<longrightarrow> histogram h ! i = 0"
  shows "(\<forall>k\<in>set (otsu_indices h). bss_at dv h k = 0)
    \<and> otsu dv h = Inr (last (bucketMeans h))"
proof -
  let ?ms = "bucketMeans h"
  let ?N = "length ?ms"
  have ne: "?ms \<noteq> []" using j len by auto
  have zero: "\<forall>k\<in>set (otsu_indices h). bss_at dv h k = 0"
  proof
    fix k assume "k \<in> set (otsu_indices h)"
    then have "k \<le> length (histogram h)"
      using len by (auto simp add: otsu_indices_def otsu_size_def)
    then show "bss_at dv h k = 0"
      using single_bucket_bss_zero [OF len j z] by blast
  qed
  have lk: "length (bss dv h) = ?N"
    by (simp add: bss_def otsu_indices_def otsu_size_def del: upt_Suc)
  have keys: "\<forall>i<?N. bss dv h ! i = 0"
    using zero lk unfolding bss_def by (metis nth_map nth_mem length_map)
  from last_array_sort [OF lk ne] obtain j' where j': "j' < ?N"
    and lj: "last (array_sort ?ms (bss dv h)) = ?ms ! j'"
    and st: "\<forall>i<?N. j' < i \<longrightarrow> bss dv h ! i < bss dv h ! j'"
    by blast
  have "\<not> j' < ?N - 1"
  proof
    assume a: "j' < ?N - 1"
    then have "bss dv h ! (?N - 1) < bss dv h ! j'" using st by simp
    then show False using keys j' a by simp
  qed
  then have "j' = ?N - 1" using j' by simp
  then have "last (array_sort ?ms (bss dv h)) = last ?ms"
    using lj ne by (simp add: last_conv_nth)
  then show ?thesis using zero len ne by (simp add: otsu_def)
qed

theorem otsu_single_bucket_returns_last_mean_witness:
  "length (histogram single_bucket) = length (bucketMeans single_bucket)
   \<and> (1::nat) < length (histogram single_bucket)
   \<and> histogram single_bucket ! 0 = 0 \<and> histogram single_bucket ! 2 = 0
   \<and> otsu ee_divide single_bucket = Inr (last (bucketMeans single_bucket))"
proof -
  have z: "\<forall>i<length (histogram single_bucket). i \<noteq> 1 \<longrightarrow> histogram single_bucket ! i = 0"
    by (simp add: single_bucket_def nth_Cons split: nat.split)
  show ?thesis
    using otsu_single_bucket_returns_last_mean [of single_bucket 1 ee_divide] z
    by (simp add: single_bucket_def)
qed

theorem otsu_single_bucket_counterexample:
  "otsu ee_divide single_bucket = Inr 3"
  by (simp add: single_bucket_def otsu_defs ee_divide_def upt_rec)

section \<open>Reading the cells of a transformed image\<close>

lemma map_of_mapCells:
  "map_of (map (\<lambda>(p, v). (p, f p v)) xs) p = map_option (f p) (map_of xs p)"
  by (induction xs) auto

lemma sample_mapCells:
  "sample (mapCells f img) p = (case map_of (cells img) p of None \<Rightarrow> None | Some v \<Rightarrow> f p v)"
proof -
  have "cells (mapCells f img) = map (\<lambda>(p, v). (p, f p v)) (cells img)"
    by (simp add: mapCells_def)
  then show ?thesis
    by (cases "map_of (cells img) p") (simp_all add: sample_def map_of_mapCells)
qed

lemma sample_mapCells_strict:
  assumes "f p None = None"
  shows "sample (mapCells f img) p = f p (sample img p)"
proof -
  have "sample img p = (case map_of (cells img) p of None \<Rightarrow> None | Some v \<Rightarrow> v)"
    by (simp add: sample_def)
  then show ?thesis
    using assms by (cases "map_of (cells img) p") (simp_all add: sample_mapCells)
qed

lemma sample_lt:
  "sample (lt img t) p = map_option (\<lambda>x. if x < t then 1 else 0) (sample img p)"
  unfolding lt_def by (rule sample_mapCells_strict) simp

lemma sample_gte:
  "sample (gte img t) p = map_option (\<lambda>x. if x \<ge> t then 1 else 0) (sample img p)"
  unfolding gte_def by (rule sample_mapCells_strict) simp

lemma sample_rename: "sample (rename b img) p = sample img p"
  by (simp add: sample_def rename_def)

text \<open>
  Claim C3. For every composite and threshold, \<open>globalWater\<close> and \<open>localWater\<close> return a
  raster whose cell is 1 exactly where the raster's sample is strictly less than the
  threshold, 0 exactly where it is not, and no-data exactly where the raster has no data;
  so every value is 0 or 1 and no-data cells stay no-data.
\<close>

theorem mask_below_threshold:
  "\<exists>w. globalWater b (s1Mosaic b composite) t = Inr w
     \<and> localWater b (s1Mosaic b composite) t = Inr w
     \<and> (\<forall>p. (sample w p = Some 1 \<longleftrightarrow> (\<exists>x. sample composite p = Some x \<and> x < t))
           \<and> (sample w p = Some 0 \<longleftrightarrow> (\<exists>x. sample composite p = Some x \<and> \<not> x < t))
           \<and> (sample w p = None \<longleftrightarrow> sample composite p = None)
           \<and> sample w p \<in> {None, Some 0, Some 1})"
proof -
  let ?w = "lt (s1Mosaic b composite) t"
  have a: "globalWater b (s1Mosaic b composite) t = Inr ?w"
    by (simp add: globalWater_def select_def s1Mosaic_def rename_def)
  have b: "localWater b (s1Mosaic b composite) t = Inr ?w"
    by (simp add: localWater_def select_def s1Mosaic_def rename_def)
  have s: "\<And>p. sample ?w p = map_option (\<lambda>x. if x < t then 1 else 0) (sample composite p)"
    by (simp add: sample_lt s1Mosaic_def sample_rename)
  have c: "\<forall>p. (sample ?w p = Some 1 \<longleftrightarrow> (\<exists>x. sample composite p = Some x \<and> x < t))
           \<and> (sample ?w p = Some 0 \<longleftrightarrow> (\<exists>x. sample composite p = Some x \<and> \<not> x < t))
           \<and> (sample ?w p = None \<longleftrightarrow> sample composite p = None)
           \<and> sample ?w p \<in> {None, Some 0, Some 1}"
  proof
    fix p show "(sample ?w p = Some 1 \<longleftrightarrow> (\<exists>x. sample composite p = Some x \<and> x < t))
           \<and> (sample ?w p = Some 0 \<longleftrightarrow> (\<exists>x. sample composite p = Some x \<and> \<not> x < t))
           \<and> (sample ?w p = None \<longleftrightarrow> sample composite p = None)
           \<and> sample ?w p \<in> {None, Some 0, Some 1}"
      by (cases "sample composite p") (auto simp: s)
  qed
  show ?thesis using a b c by blast
qed

text \<open>
  Claim C9. For every raster and global threshold, \<open>binary\<close> (the input of the edge
  detector) and \<open>globalWater\<close> hold the same cells, sample by sample, and fail on the
  same inputs; they differ in the band name only, which \<open>binary\<close> sets.
\<close>

theorem binary_equals_globalWater:
  "map_sum id cells (binary b m t) = map_sum id cells (globalWater b m t)
   \<and> map_sum id (\<lambda>i. sample i p) (binary b m t) = map_sum id (\<lambda>i. sample i p) (globalWater b m t)
   \<and> map_sum id bandName (binary b m t) = map_sum id (\<lambda>i. ''binary'') (globalWater b m t)"
  by (simp add: binary_def globalWater_def select_def rename_def sample_def)

lemma nearestSq_nonneg:
  assumes "nearestSq img p = Some d"
  shows "0 \<le> d"
proof -
  let ?ds = "map (sqDist p) (filter (near p) (nonZero img))"
  have ne: "?ds \<noteq> []" and d: "d = Min (set ?ds)"
    using assms by (auto simp: nearestSq_def Let_def split: if_splits)
  have "d \<in> set ?ds" unfolding d using ne by (metis Min_in List.finite_set set_empty)
  then show ?thesis by (auto simp: sqDist_def)
qed

lemma sample_fdt_nonneg:
  assumes "sample (fastDistanceTransform img) p = Some d"
  shows "0 \<le> d"
  using assms nearestSq_nonneg
  by (auto simp: fastDistanceTransform_def sample_mapCells split: option.splits)

lemma sample_bufferedEdges:
  "sample (bufferedEdges dv buffer prj es) p
     = map_option (\<lambda>x. if x < dv buffer (nominalScale prj) then 1 else 0)
         (sample (fastDistanceTransform es) p)"
  by (simp add: bufferedEdges_def sample_lt edgeBufferPixel_def)

lemma sample_fastDistanceTransform:
  "sample (fastDistanceTransform es) p
     = (if p \<in> fst ` set (cells es) then nearestSq es p else None)"
proof (cases "map_of (cells es) p")
  case None
  then have "p \<notin> fst ` set (cells es)" by (simp add: map_of_eq_None_iff)
  then show ?thesis using None by (simp add: fastDistanceTransform_def sample_mapCells)
next
  case (Some v)
  then have "p \<in> fst ` set (cells es)" by (metis map_of_eq_None_iff option.distinct(1))
  then show ?thesis using Some by (simp add: fastDistanceTransform_def sample_mapCells)
qed

lemma nearestSq_less:
  "(\<exists>d. nearestSq es p = Some d \<and> d < x)
     \<longleftrightarrow> (\<exists>q\<in>set (nonZero es). near p q \<and> sqDist p q < x)"
proof -
  let ?qs = "filter (near p) (nonZero es)"
  let ?ds = "map (sqDist p) ?qs"
  show ?thesis
  proof (cases "?ds = []")
    case True
    then have "?qs = []" by simp
    then have "\<not> (\<exists>q\<in>set (nonZero es). near p q)"
      by (metis (mono_tags, lifting) filter_empty_conv)
    then show ?thesis using True by (auto simp: nearestSq_def Let_def)
  next
    case False
    then have "set ?ds \<noteq> {}" by (metis set_empty)
    then have "Min (set ?ds) < x \<longleftrightarrow> (\<exists>a\<in>set ?ds. a < x)"
      by (intro Min_less_iff) (rule List.finite_set)
    also have "\<dots> \<longleftrightarrow> (\<exists>q\<in>set (nonZero es). near p q \<and> sqDist p q < x)"
      by auto
    finally show ?thesis using False by (simp add: nearestSq_def Let_def)
  qed
qed

lemma exact_ee_divide: "exact_divide ee_divide"
  by (simp add: exact_divide_def ee_divide_def)

lemma sample_fdt_strip:
  "sample (fastDistanceTransform strip) (2, 0) = Some 4"
  "sample (fastDistanceTransform strip) (1, 0) = Some 1"
  "sample (fastDistanceTransform strip) (0, 0) = Some 0"
  by (simp_all add: fastDistanceTransform_def sample_mapCells strip_def nearestSq_def nonZero_def
      near_def sqDist_def)


lemma sample_fdt_edge_line:
  "sample (fastDistanceTransform edge_line) (2, 0) = Some 4"
  "sample (fastDistanceTransform edge_line) (3, 0) = Some 9"
  by (simp_all add: fastDistanceTransform_def sample_mapCells edge_line_def nearestSq_def
      nonZero_def near_def sqDist_def)



text \<open>
  Claim C5, amended. With a buffer distance of 0 the pixel distance is 0 and no cell of
  the buffer mask is 1: every cell with a distance value is 0, since no distance is
  strictly less than 0.
\<close>

theorem zero_buffer_mask_is_empty:
  assumes "exact_divide dv" and "nominalScale prj \<noteq> 0"
  shows "edgeBufferPixel dv 0 prj = 0
    \<and> (\<forall>p. sample (bufferedEdges dv 0 prj es) p \<noteq> Some 1)
    \<and> (\<forall>p. sample (bufferedEdges dv 0 prj es) p
            = map_option (\<lambda>d. 0) (sample (fastDistanceTransform es) p))"
proof -
  have a: "dv 0 (nominalScale prj) = 0"
    using assms by (simp add: exact_divide_def)
  have c: "\<forall>p. sample (bufferedEdges dv 0 prj es) p
            = map_option (\<lambda>d. 0) (sample (fastDistanceTransform es) p)"
  proof
    fix p show "sample (bufferedEdges dv 0 prj es) p
            = map_option (\<lambda>d. 0) (sample (fastDistanceTransform es) p)"
      using sample_fdt_nonneg [of es p]
      by (cases "sample (fastDistanceTransform es) p") (auto simp: sample_bufferedEdges a)
  qed
  have b: "\<forall>p. sample (bufferedEdges dv 0 prj es) p \<noteq> Some 1"
    using c by (auto simp: map_option_case split: option.splits)
  show ?thesis using a b c by (simp add: edgeBufferPixel_def)
qed

theorem zero_buffer_mask_is_empty_witness:
  "exact_divide ee_divide \<and> nominalScale utm10 \<noteq> 0
   \<and> sample (bufferedEdges ee_divide 0 utm10 strip) (0, 0) \<noteq> Some 1"
  using zero_buffer_mask_is_empty [of ee_divide utm10 strip, OF exact_ee_divide]
  by (simp add: utm10_def exact_ee_divide)

theorem zero_buffer_counterexample:
  "sample (bufferedEdges ee_divide 0 utm10 strip) (0, 0) = Some 0
   \<and> sample strip (0, 0) = Some 1"
  using sample_fdt_strip
  by (simp add: sample_bufferedEdges ee_divide_def utm10_def) (simp add: sample_def strip_def)

text \<open>
  Claim C6. For a positive nominal scale and distances \<open>d1 \<le> d2\<close>, every cell of the
  buffer mask for \<open>d1\<close> is a cell of the buffer mask for \<open>d2\<close>.
\<close>

theorem bufferedEdges_monotone:
  assumes "exact_divide dv" and "0 < nominalScale prj" and "d1 \<le> d2"
  shows "\<forall>p. sample (bufferedEdges dv d1 prj es) p = Some 1
            \<longrightarrow> sample (bufferedEdges dv d2 prj es) p = Some 1"
proof (intro allI impI)
  fix p assume h: "sample (bufferedEdges dv d1 prj es) p = Some 1"
  have e: "dv d1 (nominalScale prj) = d1 / nominalScale prj"
    "dv d2 (nominalScale prj) = d2 / nominalScale prj"
    using assms by (simp_all add: exact_divide_def)
  have le: "d1 / nominalScale prj \<le> d2 / nominalScale prj"
    using assms by (simp add: divide_right_mono)
  from h obtain d where d: "sample (fastDistanceTransform es) p = Some d"
    and lt1: "d < d1 / nominalScale prj"
    by (auto simp: sample_bufferedEdges e split: if_splits)
  have "d < d2 / nominalScale prj" using lt1 le by simp
  then show "sample (bufferedEdges dv d2 prj es) p = Some 1"
    using d by (simp add: sample_bufferedEdges e)
qed

theorem bufferedEdges_monotone_witness:
  "exact_divide ee_divide \<and> 0 < nominalScale utm10 \<and> (30::real) \<le> 60
   \<and> sample (bufferedEdges ee_divide 30 utm10 strip) (1, 0) = Some 1
   \<and> sample (bufferedEdges ee_divide 60 utm10 strip) (1, 0) = Some 1"
proof -
  have a: "sample (bufferedEdges ee_divide 30 utm10 strip) (1, 0) = Some 1"
    using sample_fdt_strip by (simp add: sample_bufferedEdges ee_divide_def utm10_def)
  have s: "0 < nominalScale utm10" by (simp add: utm10_def)
  show ?thesis
    using bufferedEdges_monotone [of ee_divide utm10 30 60 strip, OF exact_ee_divide s] a
    by (simp add: exact_ee_divide s)
qed


section \<open>Initialisation\<close>

text \<open>
  Claim C8, amended. No parameter is validated. A season other than the four named ones
  runs the default branch of the switch, which prints the message and leaves the start and
  end months undefined; the script then stops at the start date, where \<open>ee.Date.fromYMD\<close>
  is called without its month and throws. With one of the four seasons the initialisation
  prints nothing and builds the two dates, whatever the resolution, the band and the edge
  and buffer parameters are.
\<close>

theorem invalid_season_logged_then_fails:
  "(userSeason cfg \<notin> {''Fall'', ''Winter'', ''Spring'', ''Summer''} \<longrightarrow>
      initialise cfg =
        ([''Invalid season input. Please choose Fall, Winter, Spring, or Summer.''],
         Inl (MissingArgument ''Date.fromYMD'' ''month'')))
   \<and> (userSeason cfg = ''Fall'' \<longrightarrow>
        initialise cfg =
          ([], Inr \<lparr>seasonStartMonth = Some 9, seasonEndMonth = Some 11,
                    startDate = FromYMD (userYear cfg) 9 1,
                    endDate = Advance 1 ''month'' (FromYMD (userYear cfg) 11 1)\<rparr>))
   \<and> (userSeason cfg = ''Winter'' \<longrightarrow>
        initialise cfg =
          ([], Inr \<lparr>seasonStartMonth = Some 12, seasonEndMonth = Some 2,
                    startDate = FromYMD (userYear cfg - 1) 12 1,
                    endDate = Advance 1 ''month'' (FromYMD (userYear cfg) 2 1)\<rparr>))
   \<and> (userSeason cfg = ''Spring'' \<longrightarrow>
        initialise cfg =
          ([], Inr \<lparr>seasonStartMonth = Some 3, seasonEndMonth = Some 5,
                    startDate = FromYMD (userYear cfg) 3 1,
                    endDate = Advance 1 ''month'' (FromYMD (userYear cfg) 5 1)\<rparr>))
   \<and> (userSeason cfg = ''Summer'' \<longrightarrow>
        initialise cfg =
          ([], Inr \<lparr>seasonStartMonth = Some 6, seasonEndMonth = Some 8,
                    startDate = FromYMD (userYear cfg) 6 1,
                    endDate = Advance 1 ''month'' (FromYMD (userYear cfg) 8 1)\<rparr>))"
  by (simp add: initialise_def season_switch_def season_dates_def fromYMD_def)

theorem invalid_season_logged_then_fails_witness:
  "userSeason autumn \<notin> {''Fall'', ''Winter'', ''Spring'', ''Summer''}
   \<and> initialise autumn =
        ([''Invalid season input. Please choose Fall, Winter, Spring, or Summer.''],
         Inl (MissingArgument ''Date.fromYMD'' ''month''))
   \<and> userSeason fine_winter = ''Winter''
   \<and> initialise fine_winter =
          ([], Inr \<lparr>seasonStartMonth = Some 12, seasonEndMonth = Some 2,
                    startDate = FromYMD 2022 12 1,
                    endDate = Advance 1 ''month'' (FromYMD 2023 2 1)\<rparr>)"
proof -
  have a: "userSeason autumn \<notin> {''Fall'', ''Winter'', ''Spring'', ''Summer''}"
    by (simp add: autumn_def defaults_def)
  have w: "userSeason fine_winter = ''Winter''" "userYear fine_winter = 2023"
    by (simp_all add: fine_winter_def defaults_def)
  show ?thesis
    using invalid_season_logged_then_fails [of autumn]
      invalid_season_logged_then_fails [of fine_winter] a w
    by simp
qed

theorem unvalidated_parameters_counterexample:
  "setResolution fine_winter < 10
   \<and> band fine_winter \<notin> {''VV'', ''VH'', ''HV'', ''HH''}
   \<and> edgeLength fine_winter < 0 \<and> edgeBuffer fine_winter < 0
   \<and> fst (initialise fine_winter) = []
   \<and> isl (snd (initialise fine_winter)) = False
   \<and> initialise autumn =
        ([''Invalid season input. Please choose Fall, Winter, Spring, or Summer.''],
         Inl (MissingArgument ''Date.fromYMD'' ''month''))"
  by (simp add: initialise_def season_switch_def season_dates_def fromYMD_def fine_winter_def
      autumn_def defaults_def)


section \<open>The edge filter\<close>

lemma neighbours_sym: "neighbours e p q = neighbours e q p"
  by (simp add: neighbours_def Let_def abs_minus_commute)

lemma linked_sym: "linked e img p q \<Longrightarrow> linked e img q p"
  unfolding linked_def using neighbours_sym [of e p q] by metis

lemma joined_trans:
  assumes "joined e img q r" and "joined e img p q"
  shows "joined e img p r"
  using assms by (induction rule: joined.induct) (auto intro: joined.step)

lemma joined_sym:
  assumes "joined e img p q"
  shows "joined e img q p"
  using assms
proof (induction rule: joined.induct)
  case (here p)
  then show ?case by (rule joined.here)
next
  case (step p q r)
  have "joined e img r q"
    using linked_sym [OF step.hyps(2)] joined.here joined.step by blast
  then show ?case using step.IH joined_trans by blast
qed

lemma linked_joined_eq:
  assumes "linked e img p q"
  shows "joined e img p x = joined e img q x"
proof -
  have pq: "joined e img p q" using assms joined.here joined.step by blast
  then have qp: "joined e img q p" by (rule joined_sym)
  show ?thesis using pq qp joined_trans by blast
qed

lemma linked_pixelCount:
  assumes "linked e img p q"
  shows "pixelCount m e img p = pixelCount m e img q"
  using linked_joined_eq [OF assms] by (simp add: pixelCount_def)

lemma joined_mono:
  assumes "joined e X p q" and "\<And>a b. linked e X a b \<Longrightarrow> linked e Y a b"
  shows "joined e Y p q"
  using assms by (induction rule: joined.induct) (auto intro: joined.intros)

lemma joined_cong:
  assumes "\<And>a b. linked e X a b = linked e Y a b"
  shows "joined e X p q = joined e Y p q"
  using assms joined_mono [of e X p q Y] joined_mono [of e Y p q X] by blast

lemma joined_cases_last:
  assumes "joined e img p r"
  shows "p = r \<or> (\<exists>q. linked e img q r)"
  using assms by (induction rule: joined.induct) auto


lemma sample_connectedPixelCount:
  "sample (connectedPixelCount m e img) p
     = map_option (\<lambda>x. real (pixelCount m e img p)) (sample img p)"
  unfolding connectedPixelCount_def by (rule sample_mapCells_strict) simp

lemma sample_edgeFilter:
  "sample (edgeFilter m L img) p
     = map_option (\<lambda>x. if real (pixelCount m True img p) \<ge> L then 1 else 0) (sample img p)"
  by (simp add: edgeFilter_def sample_gte sample_connectedPixelCount option.map_comp comp_def)

lemma cells_edgeFilter:
  "cells (edgeFilter m L img)
     = map (\<lambda>(p, v). (p, map_option (\<lambda>x. if real (pixelCount m True img p) \<ge> L then 1 else 0) v))
         (cells img)"
  by (simp add: edgeFilter_def gte_def connectedPixelCount_def mapCells_def option.map_comp
      comp_def case_prod_unfold)

lemma keys_edgeFilter: "fst ` set (cells (edgeFilter m L img)) = fst ` set (cells img)"
  by (force simp: cells_edgeFilter)

lemma sample_in_cells:
  assumes "sample img p = Some v"
  shows "Some v \<in> set (map snd (cells img))"
proof -
  have "map_of (cells img) p = Some (Some v)"
    using assms by (simp add: sample_def split: option.splits)
  then have "(p, Some v) \<in> set (cells img)" by (rule map_of_SomeD)
  then show ?thesis by force
qed

lemma single_valued_sample:
  assumes "single_valued_img img" and "sample img p = Some v" and "sample img q = Some w"
  shows "v = w"
  using assms(1) sample_in_cells [OF assms(2)] sample_in_cells [OF assms(3)]
  unfolding single_valued_img_def by blast

lemma linked_edgeFilter:
  assumes "single_valued_img img"
  shows "linked True (edgeFilter m L img) a b = linked True img a b"
proof
  assume l: "linked True (edgeFilter m L img) a b"
  then have n: "neighbours True a b"
    and sa: "sample (edgeFilter m L img) a \<noteq> None"
    and sb: "sample (edgeFilter m L img) b \<noteq> None"
    unfolding linked_def by metis+
  from sa sb obtain v w where "sample img a = Some v" "sample img b = Some w"
    by (auto simp: sample_edgeFilter)
  then show "linked True img a b"
    using n single_valued_sample [OF assms] by (simp add: linked_def)
next
  assume l: "linked True img a b"
  then have "pixelCount m True img a = pixelCount m True img b"
    by (rule linked_pixelCount)
  moreover from l obtain v where "neighbours True a b" "sample img a = Some v" "sample img b = Some v"
    unfolding linked_def by (metis not_None_eq)
  ultimately show "linked True (edgeFilter m L img) a b"
    by (simp add: linked_def sample_edgeFilter)
qed

lemma pixelCount_edgeFilter:
  assumes "single_valued_img img"
  shows "pixelCount m True (edgeFilter m L img) p = pixelCount m True img p"
proof -
  have "\<And>q. joined True (edgeFilter m L img) p q = joined True img p q"
    by (rule joined_cong) (rule linked_edgeFilter [OF assms])
  then show ?thesis by (simp add: pixelCount_def keys_edgeFilter)
qed

lemma edgeFilter_twice:
  assumes "single_valued_img img"
  shows "edgeFilter m L (edgeFilter m L img) = edgeFilter m L img"
proof -
  let ?F = "edgeFilter m L img"
  have c: "cells (edgeFilter m L ?F) = cells ?F"
    unfolding cells_edgeFilter [of m L ?F] pixelCount_edgeFilter [OF assms]
    by (simp add: cells_edgeFilter case_prod_unfold option.map_comp comp_def)
  have b: "bandName (edgeFilter m L ?F) = bandName ?F" "proj (edgeFilter m L ?F) = proj ?F"
    "image.more (edgeFilter m L ?F) = image.more ?F"
    by (simp_all add: edgeFilter_def gte_def connectedPixelCount_def mapCells_def)
  show ?thesis using b c by (intro image.equality) simp_all
qed


lemma edges_edgeFilter:
  "edges cfg canny
     = edgeFilter (connectedPixels cfg) (edgeLength cfg) (lt (updateMask canny canny) (cannyLt cfg))"
  by (simp add: edges_def connected_count_def edgeFilter_def)

lemma sample_pair_img:
  "sample pair_img q = (if q = (0, 0) then Some 1 else if q = (1, 0) then Some 0 else None)"
  by (simp add: sample_def pair_img_def)

lemma pair_img_not_linked: "\<not> linked True pair_img q r"
  by (auto simp: linked_def sample_pair_img neighbours_def split: if_splits)

lemma pair_img_joined: "joined True pair_img p r = (p = r)"
  using joined_cases_last [of True pair_img p r] pair_img_not_linked joined.here by blast

lemma pixelCount_pair_img:
  "pixelCount 100 True pair_img (0, 0) = 1" "pixelCount 100 True pair_img (1, 0) = 1"
proof -
  have k: "fst ` set (cells pair_img) = {(0, 0), (1, 0)}"
    by (simp add: pair_img_def)
  have "{q \<in> fst ` set (cells pair_img). joined True pair_img (0, 0) q} = {(0, 0)}"
    unfolding k by (auto simp: pair_img_joined)
  then show "pixelCount 100 True pair_img (0, 0) = 1" by (simp add: pixelCount_def)
  have "{q \<in> fst ` set (cells pair_img). joined True pair_img (1, 0) q} = {(1, 0)}"
    unfolding k by (auto simp: pair_img_joined)
  then show "pixelCount 100 True pair_img (1, 0) = 1" by (simp add: pixelCount_def)
qed

lemma cells_filtered_pair:
  "cells (edgeFilter 100 2 pair_img) = [((0, 0), Some 0), ((1, 0), Some 0)]"
  unfolding cells_edgeFilter using pixelCount_pair_img by (simp add: pair_img_def)

lemma pixelCount_filtered_pair:
  "pixelCount 100 True (edgeFilter 100 2 pair_img) (0, 0) = 2"
proof -
  let ?Y = "edgeFilter 100 2 pair_img"
  have s: "sample ?Y (0, 0) = Some 0" "sample ?Y (1, 0) = Some 0"
    by (simp_all add: sample_def cells_filtered_pair)
  have "linked True ?Y (0, 0) (1, 0)"
    by (simp add: linked_def s neighbours_def)
  then have j: "joined True ?Y (0, 0) (1, 0)"
    using joined.here joined.step by blast
  have k: "fst ` set (cells ?Y) = {(0, 0), (1, 0)}"
    by (simp add: cells_filtered_pair)
  have "{q \<in> fst ` set (cells ?Y). joined True ?Y (0, 0) q} = {(0, 0), (1, 0)}"
    unfolding k using j joined.here [of True ?Y "(0, 0)"] by auto
  then show ?thesis by (simp add: pixelCount_def)
qed

lemma sample_distinct:
  assumes "distinct (map fst (cells img))" and "(p, v) \<in> set (cells img)"
  shows "sample img p = v"
  using assms by (simp add: sample_def)

lemma detector_single_valued:
  assumes d: "detector_output cfg canny" and le: "cannyLt cfg \<le> cannyThreshold cfg"
  shows "single_valued_img (lt (updateMask canny canny) (cannyLt cfg))"
proof -
  let ?t = "cannyLt cfg"
  let ?img = "lt (updateMask canny canny) ?t"
  have dist: "distinct (map fst (cells canny))" using d by (simp add: detector_output_def)
  have rng: "\<And>p v. (p, v) \<in> set (cells canny) \<Longrightarrow>
      (case v of None \<Rightarrow> True | Some x \<Rightarrow> x = 0 \<or> cannyThreshold cfg < x)"
    using d by (force simp: detector_output_def list_all_iff)
  have c: "cells ?img = map (\<lambda>(p, v). (p, map_option (\<lambda>x. if x < ?t then 1 else 0)
        (case sample canny p of None \<Rightarrow> None | Some x \<Rightarrow> if x = 0 then None else v)))
        (cells canny)"
    by (simp add: lt_def updateMask_def mapCells_def case_prod_unfold comp_def)
  have vals: "\<And>w. w \<in> set (map snd (cells ?img)) \<Longrightarrow> w = None \<or> w = Some 0"
  proof -
    fix w assume "w \<in> set (map snd (cells ?img))"
    then obtain p v where pv: "(p, v) \<in> set (cells canny)"
      and w: "w = map_option (\<lambda>x. if x < ?t then 1 else 0)
        (case sample canny p of None \<Rightarrow> None | Some x \<Rightarrow> if x = 0 then None else v)"
      unfolding c by auto
    have s: "sample canny p = v" using sample_distinct [OF dist pv] .
    show "w = None \<or> w = Some 0"
    proof (cases v)
      case None
      then show ?thesis using w s by simp
    next
      case (Some x)
      then have "x = 0 \<or> cannyThreshold cfg < x" using rng [OF pv] by simp
      then show ?thesis using w s Some le by auto
    qed
  qed
  show ?thesis unfolding single_valued_img_def using vals by blast
qed

lemma joined_closed:
  assumes "joined e img p q" and "p \<in> S" and "\<And>a b. a \<in> S \<Longrightarrow> linked e img a b \<Longrightarrow> b \<in> S"
  shows "q \<in> S"
  using assms by (induction rule: joined.induct) auto

lemma sample_edge_row:
  "sample edge_row q = (if q = (0, 0) \<or> q = (1, 0) \<or> q = (3, 0) then Some 0 else None)"
  by (simp add: sample_def edge_row_def)

lemma linked_edge_row:
  "linked True edge_row a b \<longleftrightarrow> (a = (0, 0) \<and> b = (1, 0)) \<or> (a = (1, 0) \<and> b = (0, 0))"
  by (auto simp: linked_def sample_edge_row neighbours_def split: if_splits)

lemma joined_edge_row:
  "joined True edge_row (0, 0) q \<longleftrightarrow> q = (0, 0) \<or> q = (1, 0)"
  "joined True edge_row (1, 0) q \<longleftrightarrow> q = (0, 0) \<or> q = (1, 0)"
  "joined True edge_row (3, 0) q \<longleftrightarrow> q = (3, 0)"
proof -
  have l: "linked True edge_row (0, 0) (1, 0)" "linked True edge_row (1, 0) (0, 0)"
    by (simp_all add: linked_edge_row)
  have j: "joined True edge_row (0, 0) (1, 0)" "joined True edge_row (1, 0) (0, 0)"
    using l joined.here joined.step by blast+
  have c2: "\<And>p q. joined True edge_row p q \<Longrightarrow> p \<in> {(0, 0), (1, 0)} \<Longrightarrow> q \<in> {(0, 0), (1, 0)}"
    by (erule joined_closed) (auto simp: linked_edge_row)
  have c1: "\<And>q. joined True edge_row (3, 0) q \<Longrightarrow> q \<in> {(3, 0)}"
    by (erule joined_closed) (auto simp: linked_edge_row)
  show "joined True edge_row (0, 0) q \<longleftrightarrow> q = (0, 0) \<or> q = (1, 0)"
    using c2 [of "(0, 0)" q] j joined.here by auto
  show "joined True edge_row (1, 0) q \<longleftrightarrow> q = (0, 0) \<or> q = (1, 0)"
    using c2 [of "(1, 0)" q] j joined.here by auto
  show "joined True edge_row (3, 0) q \<longleftrightarrow> q = (3, 0)"
    using c1 [of q] joined.here by auto
qed

lemma pixelCount_edge_row:
  "pixelCount 100 True edge_row (0, 0) = 2"
  "pixelCount 100 True edge_row (1, 0) = 2"
  "pixelCount 100 True edge_row (3, 0) = 1"
proof -
  have k: "fst ` set (cells edge_row) = {(0, 0), (1, 0), (2, 0), (3, 0)}"
    by (simp add: edge_row_def)
  have "{q \<in> fst ` set (cells edge_row). joined True edge_row (0, 0) q} = {(0, 0), (1, 0)}"
    unfolding k by (auto simp: joined_edge_row)
  then show "pixelCount 100 True edge_row (0, 0) = 2" by (simp add: pixelCount_def)
  have "{q \<in> fst ` set (cells edge_row). joined True edge_row (1, 0) q} = {(0, 0), (1, 0)}"
    unfolding k by (auto simp: joined_edge_row)
  then show "pixelCount 100 True edge_row (1, 0) = 2" by (simp add: pixelCount_def)
  have "{q \<in> fst ` set (cells edge_row). joined True edge_row (3, 0) q} = {(3, 0)}"
    unfolding k by (auto simp: joined_edge_row)
  then show "pixelCount 100 True edge_row (3, 0) = 1" by (simp add: pixelCount_def)
qed

lemma edges_canny_row: "edges short_edges canny_row = edgeFilter 100 2 edge_row"
proof -
  have "lt (updateMask canny_row canny_row) (cannyLt defaults) = edge_row"
    by (simp add: lt_def updateMask_def mapCells_def sample_def canny_row_def edge_row_def
        defaults_def)
  then show ?thesis
    by (simp add: edges_edgeFilter short_edges_def) (simp add: defaults_def)
qed





end
